theory Spec2Isabelle
  imports Main "HOL-Library.Word" "HOL-Library.Multiset"
begin

section \<open>Data model (src/src/App.tsx, lines 7-14)\<close>

text \<open>
  A JavaScript string is a sequence of UTF-16 code units. All white space and line
  terminator characters of ECMAScript lie in the basic plane, so \<open>String.prototype.trim\<close>
  is exact on code units.
\<close>

type_synonym js_string = "16 word list"

definition js_of :: "string \<Rightarrow> js_string" where
  "js_of s = map (\<lambda>c. of_nat (of_char c)) s"

datatype Priority = high | medium | low

record Task =
  text' :: js_string
  completed :: bool
  priority :: Priority
  createdAt :: int

section \<open>Library primitives of the language used by the component\<close>

text \<open>
  ECMAScript WhiteSpace and LineTerminator code points, the characters that
  \<open>trim\<close> strips: TAB, LF, VT, FF, CR, SP, NBSP, U+1680, U+2000..U+200A, U+2028,
  U+2029, U+202F, U+205F, U+3000 and U+FEFF.
\<close>

definition isWhiteSpace :: "16 word \<Rightarrow> bool" where
  "isWhiteSpace c \<longleftrightarrow>
     c = 0x0009 \<or> c = 0x000A \<or> c = 0x000B \<or> c = 0x000C \<or> c = 0x000D \<or> c = 0x0020 \<or>
     c = 0x00A0 \<or> c = 0x1680 \<or> (0x2000 \<le> c \<and> c \<le> 0x200A) \<or> c = 0x2028 \<or>
     c = 0x2029 \<or> c = 0x202F \<or> c = 0x205F \<or> c = 0x3000 \<or> c = 0xFEFF"

definition trim :: "js_string \<Rightarrow> js_string" where
  "trim s = rev (dropWhile isWhiteSpace (rev (dropWhile isWhiteSpace s)))"

text \<open>\<open>Array.prototype.filter\<close> and \<open>Array.prototype.map\<close> with a callback that
  receives the element and its index; both build a new array.\<close>

fun filter_from :: "('a \<Rightarrow> nat \<Rightarrow> bool) \<Rightarrow> nat \<Rightarrow> 'a list \<Rightarrow> 'a list" where
  "filter_from p i [] = []"
| "filter_from p i (x # xs) =
     (if p x i then x # filter_from p (Suc i) xs else filter_from p (Suc i) xs)"

definition Array_filter :: "('a \<Rightarrow> nat \<Rightarrow> bool) \<Rightarrow> 'a list \<Rightarrow> 'a list" where
  "Array_filter p xs = filter_from p 0 xs"

fun map_from :: "('a \<Rightarrow> nat \<Rightarrow> 'b) \<Rightarrow> nat \<Rightarrow> 'a list \<Rightarrow> 'b list" where
  "map_from f i [] = []"
| "map_from f i (x # xs) = f x i # map_from f (Suc i) xs"

definition Array_map :: "('a \<Rightarrow> nat \<Rightarrow> 'b) \<Rightarrow> 'a list \<Rightarrow> 'b list" where
  "Array_map f xs = map_from f 0 xs"

text \<open>\<open>Array.prototype.findIndex\<close>: the index of the first element satisfying the
  predicate, \<open>-1\<close> when there is none.\<close>

fun findIndex_from :: "('a \<Rightarrow> bool) \<Rightarrow> nat \<Rightarrow> 'a list \<Rightarrow> int" where
  "findIndex_from p i [] = - 1"
| "findIndex_from p i (x # xs) = (if p x then int i else findIndex_from p (Suc i) xs)"

definition Array_findIndex :: "('a \<Rightarrow> bool) \<Rightarrow> 'a list \<Rightarrow> int" where
  "Array_findIndex p xs = findIndex_from p 0 xs"

text \<open>
  \<open>Array.prototype.sort\<close> with a comparator: \<open>cmp a b > 0\<close> puts \<open>a\<close> after \<open>b\<close>.
  The language guarantees a stable sort (ECMAScript 2019); the algorithm is the engine's.
  It is modelled by stable insertion: elements are inserted from the right, each one in
  front of the first element it does not have to follow, so that on a tie the element
  that came first stays first.
\<close>

fun insert_cmp :: "('a \<Rightarrow> 'a \<Rightarrow> int) \<Rightarrow> 'a \<Rightarrow> 'a list \<Rightarrow> 'a list" where
  "insert_cmp cmp x [] = [x]"
| "insert_cmp cmp x (y # ys) =
     (if cmp x y \<le> 0 then x # y # ys else y # insert_cmp cmp x ys)"

definition Array_sort :: "('a \<Rightarrow> 'a \<Rightarrow> int) \<Rightarrow> 'a list \<Rightarrow> 'a list" where
  "Array_sort cmp xs = foldr (insert_cmp cmp) xs []"

section \<open>Task list operations (src/src/App.tsx, lines 103-135 and 213)\<close>

text \<open>\<open>deleteTask\<close>, line 114: \<open>tasks.filter((_, i) => i !== index)\<close>.\<close>

definition deleteTask :: "Task list \<Rightarrow> int \<Rightarrow> Task list" where
  "deleteTask tasks index = Array_filter (\<lambda>_ i. int i \<noteq> index) tasks"

text \<open>\<open>toggleComplete\<close>, lines 119-121.\<close>

definition toggleComplete :: "Task list \<Rightarrow> int \<Rightarrow> Task list" where
  "toggleComplete tasks index =
     Array_map (\<lambda>task i. if int i = index then task\<lparr>completed := \<not> completed task\<rparr> else task)
       tasks"

text \<open>The comparator of \<open>sortedTasks\<close>, lines 131-135.\<close>

fun prioOrder :: "Priority \<Rightarrow> int" where
  "prioOrder high = 3"
| "prioOrder medium = 2"
| "prioOrder low = 1"

definition compareTasks :: "Task \<Rightarrow> Task \<Rightarrow> int" where
  "compareTasks a b =
     (let prioDiff = prioOrder (priority b) - prioOrder (priority a)
      in if prioDiff \<noteq> 0 then prioDiff else createdAt b - createdAt a)"

definition sortedTasks :: "Task list \<Rightarrow> Task list" where
  "sortedTasks tasks = Array_sort compareTasks tasks"

text \<open>\<open>originalIndex\<close>, line 213: the position in the canonical list of the first task
  with the displayed task's \<open>createdAt\<close>.\<close>

definition originalIndex :: "Task list \<Rightarrow> Task \<Rightarrow> int" where
  "originalIndex tasks task = Array_findIndex (\<lambda>t. createdAt t = createdAt task) tasks"

section \<open>The remote document and the store's write\<close>

text \<open>
  The user document \<open>users/{uid}\<close>: the fields \<open>tasks\<close> and \<open>preferences\<close>, each of
  which may be absent, and whatever other top-level fields the document holds. The same
  shape serves for the object passed to \<open>setDoc\<close>, where an absent field is one the
  object literal does not mention.
\<close>

datatype jvalue = JNull | JBool bool | JNum int | JStr js_string

record Preferences =
  pref_darkMode :: "bool option"

record Document =
  doc_tasks :: "Task list option"
  doc_preferences :: "Preferences option"
  doc_others :: "(string \<times> jvalue) list"

record Write =
  w_uid :: string
  w_data :: Document
  w_merge :: bool

text \<open>
  Modelled from the spec: the write of the document store, an external service whose code
  is not part of the repository. Its contract (section 6) is
  \<open>write(key, partialFields, merge=true)\<close>: the top-level fields the partial document
  mentions are replaced and the others are kept; the document is created when there is
  none. Without \<open>merge\<close> the document is overwritten.
\<close>

definition merge_fields :: "Document \<Rightarrow> Document \<Rightarrow> Document" where
  "merge_fields old new =
     \<lparr>doc_tasks = (case doc_tasks new of Some t \<Rightarrow> Some t | None \<Rightarrow> doc_tasks old),
      doc_preferences =
        (case doc_preferences new of Some p \<Rightarrow> Some p | None \<Rightarrow> doc_preferences old),
      doc_others =
        doc_others new @ filter (\<lambda>(k, _). k \<notin> fst ` set (doc_others new)) (doc_others old)\<rparr>"

definition store_write :: "Document option \<Rightarrow> Write \<Rightarrow> Document" where
  "store_write old w =
     (case old of
        None \<Rightarrow> w_data w
      | Some d \<Rightarrow> if w_merge w then merge_fields d (w_data w) else w_data w)"

section \<open>The component: state, handlers and effects (src/src/App.tsx, lines 16-129)\<close>

text \<open>
  The state variables of \<open>App\<close> (lines 17-33), followed by what the component's effects
  act on: the uid of the live \<open>onSnapshot\<close> listener, the \<open>setDoc\<close> calls issued so far,
  oldest first, and the \<open>darkMode\<close> entry of the local storage.
\<close>

record state =
  tasks :: "Task list"
  newTask :: js_string
  priority_st :: Priority
  userId :: "string option"
  loading :: bool
  isInitialLoadDone :: bool
  darkMode :: bool
  subscription :: "string option"
  writes :: "Write list"
  localStorage_darkMode :: "bool option"

text \<open>A handler is the list of state setter calls it makes, in order.\<close>

datatype action =
    setTasks "Task list"
  | setNewTask js_string
  | setPriority Priority
  | setUserId string
  | setLoading bool
  | setIsInitialLoadDone bool
  | setDarkMode bool

fun apply_action :: "state \<Rightarrow> action \<Rightarrow> state" where
  "apply_action s (setTasks ts) = s\<lparr>tasks := ts\<rparr>"
| "apply_action s (setNewTask v) = s\<lparr>newTask := v\<rparr>"
| "apply_action s (setPriority p) = s\<lparr>priority_st := p\<rparr>"
| "apply_action s (setUserId u) = s\<lparr>userId := Some u\<rparr>"
| "apply_action s (setLoading b) = s\<lparr>loading := b\<rparr>"
| "apply_action s (setIsInitialLoadDone b) = s\<lparr>isInitialLoadDone := b\<rparr>"
| "apply_action s (setDarkMode b) = s\<lparr>darkMode := b\<rparr>"

definition apply_actions :: "state \<Rightarrow> action list \<Rightarrow> state" where
  "apply_actions s acts = foldl apply_action s acts"

text \<open>\<open>addTask\<close>, lines 103-111; the argument is the value of \<open>Date.now()\<close>.\<close>

definition addTask :: "state \<Rightarrow> int \<Rightarrow> action list" where
  "addTask s now =
     (if trim (newTask s) = [] then []
      else [setTasks (tasks s @
              [\<lparr>text' = trim (newTask s), completed = False, priority = priority_st s,
                createdAt = now\<rparr>]),
            setNewTask [],
            setPriority medium])"

text \<open>\<open>clearAllTasks\<close>, lines 125-129; the argument is the answer of \<open>window.confirm\<close>.\<close>

definition clearAllTasks :: "bool \<Rightarrow> action list" where
  "clearAllTasks confirmed = (if confirmed then [setTasks []] else [])"

text \<open>The callback given to \<open>onSnapshot\<close>, lines 64-79; \<open>None\<close> is a snapshot whose
  document does not exist.\<close>

definition onSnapshot_callback :: "Document option \<Rightarrow> action list" where
  "onSnapshot_callback docSnap =
     (case docSnap of
        Some data \<Rightarrow>
          setTasks (case doc_tasks data of Some ts \<Rightarrow> ts | None \<Rightarrow> []) #
          (case doc_preferences data of
             None \<Rightarrow> []
           | Some p \<Rightarrow> (case pref_darkMode p of None \<Rightarrow> [] | Some b \<Rightarrow> [setDarkMode b]))
      | None \<Rightarrow> [setTasks []])
     @ [setLoading False, setIsInitialLoadDone True]"

text \<open>The callback given to \<open>onAuthStateChanged\<close>, lines 48-54. With no user it asks the
  identity provider for an anonymous sign-in and sets nothing.\<close>

definition onAuthStateChanged_callback :: "string option \<Rightarrow> action list" where
  "onAuthStateChanged_callback user = (case user of Some uid \<Rightarrow> [setUserId uid] | None \<Rightarrow> [])"

text \<open>
  What can happen to the mounted component: the identity provider reports a user or none,
  the listener for a uid delivers a snapshot, or the user acts on the page.
\<close>

datatype event =
    AuthStateChanged "string option"
  | Snapshot string "Document option"
  | ClickAdd int
  | ChangeNewTask js_string
  | ChangePriority Priority
  | ClickDelete int
  | ClickToggle int
  | ClickClearAll bool
  | ClickTheme

text \<open>A snapshot reaches the callback only through the listener that is subscribed, which
  exists for the current \<open>userId\<close> alone (lines 60 and 81).\<close>

fun handler :: "state \<Rightarrow> event \<Rightarrow> action list" where
  "handler s (AuthStateChanged user) = onAuthStateChanged_callback user"
| "handler s (Snapshot uid docSnap) =
     (if subscription s = Some uid then onSnapshot_callback docSnap else [])"
| "handler s (ClickAdd now) = addTask s now"
| "handler s (ChangeNewTask v) = [setNewTask v]"
| "handler s (ChangePriority p) = [setPriority p]"
| "handler s (ClickDelete index) = [setTasks (deleteTask (tasks s) index)]"
| "handler s (ClickToggle index) = [setTasks (toggleComplete (tasks s) index)]"
| "handler s (ClickClearAll confirmed) = clearAllTasks confirmed"
| "handler s ClickTheme = [setDarkMode (\<not> darkMode s)]"

text \<open>The effects, in the order the component declares them. The guard \<open>!userId\<close> holds
  for \<open>null\<close> and for the empty string.\<close>

definition effect_localStorage :: "state \<Rightarrow> state" where
  "effect_localStorage s = s\<lparr>localStorage_darkMode := Some (darkMode s)\<rparr>"

definition effect_subscribe :: "state \<Rightarrow> state" where
  "effect_subscribe s =
     (case userId s of
        None \<Rightarrow> s\<lparr>subscription := None\<rparr>
      | Some uid \<Rightarrow>
          if uid = [] then s\<lparr>subscription := None\<rparr>
          else s\<lparr>loading := True, subscription := Some uid\<rparr>)"

definition effect_saveTasks :: "state \<Rightarrow> state" where
  "effect_saveTasks s =
     (case userId s of
        None \<Rightarrow> s
      | Some uid \<Rightarrow>
          if uid = [] \<or> \<not> isInitialLoadDone s then s
          else s\<lparr>writes := writes s @
                 [\<lparr>w_uid = uid,
                   w_data = \<lparr>doc_tasks = Some (tasks s), doc_preferences = None,
                             doc_others = []\<rparr>,
                   w_merge = True\<rparr>]\<rparr>)"

definition effect_savePreferences :: "state \<Rightarrow> state" where
  "effect_savePreferences s =
     (case userId s of
        None \<Rightarrow> s
      | Some uid \<Rightarrow>
          if uid = [] \<or> \<not> isInitialLoadDone s then s
          else s\<lparr>writes := writes s @
                 [\<lparr>w_uid = uid,
                   w_data = \<lparr>doc_tasks = None,
                             doc_preferences = Some \<lparr>pref_darkMode = Some (darkMode s)\<rparr>,
                             doc_others = []\<rparr>,
                   w_merge = True\<rparr>]\<rparr>)"

text \<open>
  After a render an effect runs when one of its dependencies differs from the previous
  render's. Booleans and the uid are compared by value; \<open>tasks\<close> is an array, compared by
  reference, and every \<open>setTasks\<close> call of the component passes a new array.
\<close>

fun sets_tasks :: "action \<Rightarrow> bool" where
  "sets_tasks (setTasks ts) = True"
| "sets_tasks a = False"

definition run_effects :: "bool \<Rightarrow> state \<Rightarrow> state \<Rightarrow> state" where
  "run_effects tasks_changed prev s =
     (let dm = (darkMode s \<noteq> darkMode prev);
          uid = (userId s \<noteq> userId prev);
          done = (isInitialLoadDone s \<noteq> isInitialLoadDone prev);
          s1 = (if dm then effect_localStorage s else s);
          s2 = (if uid then effect_subscribe s1 else s1);
          s3 = (if tasks_changed \<or> uid \<or> done then effect_saveTasks s2 else s2)
      in if dm \<or> uid \<or> done then effect_savePreferences s3 else s3)"

definition step :: "state \<Rightarrow> event \<Rightarrow> state" where
  "step s e =
     (let acts = handler s e
      in run_effects (list_ex sets_tasks acts) s (apply_actions s acts))"

definition run :: "state \<Rightarrow> event list \<Rightarrow> state" where
  "run s es = foldl step s es"

text \<open>
  The component once mounted: the initial values of lines 17-33, where \<open>saved\<close> is the
  \<open>darkMode\<close> entry of the local storage, and every effect run once.
\<close>

definition useState_initial :: "bool option \<Rightarrow> state" where
  "useState_initial saved =
     \<lparr>tasks = [], newTask = [], priority_st = medium, userId = None, loading = True,
      isInitialLoadDone = False,
      darkMode = (case saved of Some b \<Rightarrow> b | None \<Rightarrow> False),
      subscription = None, writes = [], localStorage_darkMode = saved\<rparr>"

definition mounted :: "bool option \<Rightarrow> state" where
  "mounted saved =
     effect_savePreferences (effect_saveTasks (effect_subscribe
       (effect_localStorage (useState_initial saved))))"

text \<open>
  A session under one identity: whenever the identity provider reports a user, it is the
  same uid.
\<close>

fun under_identity :: "string \<Rightarrow> event \<Rightarrow> bool" where
  "under_identity u (AuthStateChanged (Some v)) = (v = u)"
| "under_identity u e = True"

text \<open>The events that are local mutations: what the user does on the page.\<close>

fun local_mutation :: "event \<Rightarrow> bool" where
  "local_mutation (AuthStateChanged user) = False"
| "local_mutation (Snapshot uid docSnap) = False"
| "local_mutation e = True"

section \<open>Arrays as objects: the copy made before sorting\<close>

text \<open>
  \<open>Array.prototype.sort\<close> sorts the array it is called on, in place, and line 131 calls it
  on \<open>[...tasks]\<close>. To say that the canonical list is not touched, arrays live in a heap
  of references here: the spread allocates a new array with the same elements, and the
  sort overwrites the array behind the reference it is given.
\<close>

record heap =
  arrays :: "nat \<Rightarrow> Task list option"
  next_ref :: nat

definition spread :: "nat \<Rightarrow> heap \<Rightarrow> (nat \<times> heap) option" where
  "spread r h =
     (case arrays h r of
        None \<Rightarrow> None
      | Some xs \<Rightarrow>
          Some (next_ref h,
                h\<lparr>arrays := (arrays h)(next_ref h := Some xs), next_ref := Suc (next_ref h)\<rparr>))"

definition sort_in_place :: "(Task \<Rightarrow> Task \<Rightarrow> int) \<Rightarrow> nat \<Rightarrow> heap \<Rightarrow> (nat \<times> heap) option" where
  "sort_in_place cmp r h =
     (case arrays h r of
        None \<Rightarrow> None
      | Some xs \<Rightarrow> Some (r, h\<lparr>arrays := (arrays h)(r := Some (Array_sort cmp xs))\<rparr>))"

definition render_sortedTasks :: "nat \<Rightarrow> heap \<Rightarrow> (nat \<times> heap) option" where
  "render_sortedTasks tasks_ref h =
     (case spread tasks_ref h of
        None \<Rightarrow> None
      | Some (copy, h') \<Rightarrow> sort_in_place compareTasks copy h')"

section \<open>Example data\<close>

definition task_a :: Task where
  "task_a = \<lparr>text' = js_of ''Buy milk'', completed = False, priority = low, createdAt = 9\<rparr>"

definition task_b :: Task where
  "task_b = \<lparr>text' = js_of ''Call Ann'', completed = False, priority = high, createdAt = 1\<rparr>"

definition task_c :: Task where
  "task_c = \<lparr>text' = js_of ''Pay rent'', completed = True, priority = high, createdAt = 1\<rparr>"

definition task_d :: Task where
  "task_d = \<lparr>text' = js_of ''Write'', completed = False, priority = high, createdAt = 7\<rparr>"

definition example_heap :: heap where
  "example_heap =
     \<lparr>arrays = (\<lambda>_. None)(0 := Some [task_a, task_b, task_c, task_d]), next_ref = 1\<rparr>"

text \<open>A signed-in component with the initial-load flag set and a task being typed, its
  log of writes taken empty, and the same component with only blanks in the input.\<close>

definition typing_state :: state where
  "typing_state =
     \<lparr>tasks = [], newTask = js_of ''  Buy milk '', priority_st = high, userId = Some ''u1'',
      loading = False, isInitialLoadDone = True, darkMode = False,
      subscription = Some ''u1'', writes = [], localStorage_darkMode = Some False\<rparr>"

definition blank_state :: state where
  "blank_state = typing_state\<lparr>newTask := js_of ''   ''\<rparr>"

definition example_document :: Document where
  "example_document =
     \<lparr>doc_tasks = Some [task_a, task_b], doc_preferences = Some \<lparr>pref_darkMode = Some True\<rparr>,
      doc_others = [(''plan'', JStr (js_of ''free''))]\<rparr>"

text \<open>A session: sign-in, a theme change before the first snapshot, the first snapshot,
  and a deletion; and the last two writes it issues.\<close>

definition example_session :: "event list" where
  "example_session =
     [AuthStateChanged (Some ''u1''), ClickTheme, Snapshot ''u1'' (Some example_document),
      ClickDelete 0]"

definition preferences_write :: Write where
  "preferences_write =
     \<lparr>w_uid = ''u1'',
      w_data = \<lparr>doc_tasks = None, doc_preferences = Some \<lparr>pref_darkMode = Some True\<rparr>,
                doc_others = []\<rparr>,
      w_merge = True\<rparr>"

definition tasks_write :: Write where
  "tasks_write =
     \<lparr>w_uid = ''u1'',
      w_data = \<lparr>doc_tasks = Some [task_b], doc_preferences = None, doc_others = []\<rparr>,
      w_merge = True\<rparr>"

section \<open>Facts about the array primitives\<close>

lemma filter_from_below:
  "index < int k \<Longrightarrow> filter_from (\<lambda>_ i. int i \<noteq> index) k xs = xs"
  by (induction xs arbitrary: k) auto

lemma filter_from_above:
  "int k + int (length xs) \<le> index \<Longrightarrow> filter_from (\<lambda>_ i. int i \<noteq> index) k xs = xs"
  by (induction xs arbitrary: k) auto

lemma filter_from_at:
  "j < length xs \<Longrightarrow>
   filter_from (\<lambda>_ i. int i \<noteq> int (k + j)) k xs = take j xs @ drop (Suc j) xs"
proof (induction xs arbitrary: k j)
  case Nil
  then show ?case by simp
next
  case (Cons x xs)
  show ?case
  proof (cases j)
    case 0
    then show ?thesis using filter_from_below [of "int k" "Suc k" xs] by simp
  next
    case (Suc j')
    with Cons.prems have "j' < length xs" by simp
    from Cons.IH [OF this, of "Suc k"] Suc show ?thesis by simp
  qed
qed

lemma length_map_from: "length (map_from f k xs) = length xs"
  by (induction xs arbitrary: k) auto

lemma nth_map_from: "j < length xs \<Longrightarrow> map_from f k xs ! j = f (xs ! j) (k + j)"
proof (induction xs arbitrary: k j)
  case Nil
  then show ?case by simp
next
  case (Cons x xs)
  then show ?case by (cases j) auto
qed

lemma findIndex_from_distinct:
  "j < length xs \<Longrightarrow> distinct (map f xs) \<Longrightarrow>
   findIndex_from (\<lambda>t. f t = f (xs ! j)) k xs = int (k + j)"
proof (induction xs arbitrary: k j)
  case Nil
  then show ?case by simp
next
  case (Cons x xs)
  show ?case
  proof (cases j)
    case 0
    then show ?thesis by simp
  next
    case (Suc j')
    with Cons.prems have j': "j' < length xs" and d: "distinct (map f xs)"
      and "f x \<notin> f ` set xs"
      by auto
    moreover from j' have "xs ! j' \<in> set xs" by simp
    ultimately have "f (xs ! j') \<noteq> f x" by (metis imageI)
    with Cons.IH [OF j' d, of "Suc k"] Suc show ?thesis by simp
  qed
qed

lemma mset_insert_cmp: "mset (insert_cmp cmp x ys) = add_mset x (mset ys)"
  by (induction ys) auto

lemma mset_Array_sort: "mset (Array_sort cmp xs) = mset xs"
  by (induction xs) (auto simp: Array_sort_def mset_insert_cmp)

lemma set_insert_cmp: "set (insert_cmp cmp x ys) = insert x (set ys)"
  by (induction ys) auto

lemma filter_insert_cmp_other:
  "\<not> P x \<Longrightarrow> filter P (insert_cmp cmp x ys) = filter P ys"
  by (induction ys) auto


lemma prioOrder_eq_iff: "prioOrder p = prioOrder q \<longleftrightarrow> p = q"
  by (cases p; cases q) auto

lemma compareTasks_le_iff:
  "compareTasks a b \<le> 0 \<longleftrightarrow>
     prioOrder (priority b) < prioOrder (priority a) \<or>
     (priority a = priority b \<and> createdAt b \<le> createdAt a)"
  by (cases "priority a"; cases "priority b") (auto simp: compareTasks_def)

lemma sorted_wrt_insert_cmp:
  assumes total: "\<And>a b. cmp a b \<le> 0 \<or> cmp b a \<le> 0"
    and trans: "\<And>a b c. cmp a b \<le> 0 \<Longrightarrow> cmp b c \<le> 0 \<Longrightarrow> cmp a c \<le> 0"
  shows "sorted_wrt (\<lambda>a b. cmp a b \<le> 0) ys \<Longrightarrow>
         sorted_wrt (\<lambda>a b. cmp a b \<le> (0::int)) (insert_cmp cmp x ys)"
proof (induction ys)
  case Nil
  then show ?case by simp
next
  case (Cons y ys)
  show ?case
  proof (cases "cmp x y \<le> 0")
    case True
    with Cons.prems trans show ?thesis by auto
  next
    case False
    with total have "cmp y x \<le> 0" by blast
    with False Cons show ?thesis by (auto simp: set_insert_cmp)
  qed
qed

lemma sorted_wrt_Array_sort:
  assumes total: "\<And>a b. cmp a b \<le> 0 \<or> cmp b a \<le> 0"
    and trans: "\<And>a b c. cmp a b \<le> 0 \<Longrightarrow> cmp b c \<le> 0 \<Longrightarrow> cmp a c \<le> 0"
  shows "sorted_wrt (\<lambda>a b. cmp a b \<le> (0::int)) (Array_sort cmp xs)"
proof (induction xs)
  case Nil
  then show ?case by (simp add: Array_sort_def)
next
  case (Cons x xs)
  then show ?case
    by (simp add: Array_sort_def sorted_wrt_insert_cmp [OF total trans])
qed

lemma filter_insert_cmp_tie:
  assumes "P x" and "\<And>y. P y \<Longrightarrow> cmp x y \<le> (0::int)"
  shows "filter P (insert_cmp cmp x ys) = x # filter P ys"
  using assms by (induction ys) auto

lemma filter_Array_sort_stable:
  assumes "\<And>x y. P x \<Longrightarrow> P y \<Longrightarrow> cmp x y \<le> (0::int)"
  shows "filter P (Array_sort cmp xs) = filter P xs"
proof (induction xs)
  case Nil
  then show ?case by (simp add: Array_sort_def)
next
  case (Cons x xs)
  show ?case
  proof (cases "P x")
    case True
    with assms have "filter P (insert_cmp cmp x (Array_sort cmp xs)) = x # filter P (Array_sort cmp xs)"
      by (intro filter_insert_cmp_tie) auto
    with True Cons show ?thesis by (simp add: Array_sort_def)
  next
    case False
    with Cons show ?thesis by (simp add: Array_sort_def filter_insert_cmp_other)
  qed
qed

lemma sortedTasks_sorted:
  "sorted_wrt (\<lambda>a b. prioOrder (priority b) < prioOrder (priority a) \<or>
     (priority a = priority b \<and> createdAt b \<le> createdAt a)) (sortedTasks ts)"
proof -
  have "sorted_wrt (\<lambda>a b. compareTasks a b \<le> 0) (Array_sort compareTasks ts)"
  proof (rule sorted_wrt_Array_sort)
    show "compareTasks a b \<le> 0 \<or> compareTasks b a \<le> 0" for a b
      unfolding compareTasks_le_iff
      using prioOrder_eq_iff [of "priority a" "priority b"] by auto
    show "compareTasks a b \<le> 0 \<Longrightarrow> compareTasks b c \<le> 0 \<Longrightarrow> compareTasks a c \<le> 0" for a b c
      unfolding compareTasks_le_iff by auto
  qed
  then show ?thesis by (simp add: sortedTasks_def compareTasks_le_iff)
qed

lemma sortedTasks_stable:
  "filter (\<lambda>t. priority t = p \<and> createdAt t = c) (sortedTasks ts) =
   filter (\<lambda>t. priority t = p \<and> createdAt t = c) ts"
  unfolding sortedTasks_def
  by (rule filter_Array_sort_stable) (simp add: compareTasks_le_iff)

section \<open>Facts about the task list operations\<close>

lemma filter_from_outside:
  "index < int k \<or> int k + int (length xs) \<le> index \<Longrightarrow>
   filter_from (\<lambda>_ i. int i \<noteq> index) k xs = xs"
  using filter_from_below filter_from_above by blast

lemma map_from_outside:
  "index < int k \<or> int k + int (length xs) \<le> index \<Longrightarrow>
   map_from (\<lambda>x i. if int i = index then g x else x) k xs = xs"
  by (induction xs arbitrary: k) auto

lemma map_from_at:
  "j < length xs \<Longrightarrow>
   map_from (\<lambda>x i. if int i = int (k + j) then g x else x) k xs = xs[j := g (xs ! j)]"
  by (rule nth_equalityI) (auto simp: length_map_from nth_map_from nth_list_update)

lemma map_from_twice:
  "(\<And>x. g (g x) = x) \<Longrightarrow>
   map_from (\<lambda>x i. if int i = index then g x else x) k
     (map_from (\<lambda>x i. if int i = index then g x else x) k xs) = xs"
  by (induction xs arbitrary: k) auto

lemma deleteTask_at:
  "j < length ts \<Longrightarrow> deleteTask ts (int j) = take j ts @ drop (Suc j) ts"
  using filter_from_at [of j ts 0] by (simp add: deleteTask_def Array_filter_def)

lemma deleteTask_outside:
  "index < 0 \<or> int (length ts) \<le> index \<Longrightarrow> deleteTask ts index = ts"
  using filter_from_outside [of index 0 ts] by (simp add: deleteTask_def Array_filter_def)

lemma toggleComplete_at:
  "j < length ts \<Longrightarrow>
   toggleComplete ts (int j) = ts[j := (ts ! j)\<lparr>completed := \<not> completed (ts ! j)\<rparr>]"
  using map_from_at [of j ts 0 "\<lambda>t. t\<lparr>completed := \<not> completed t\<rparr>"]
  by (simp add: toggleComplete_def Array_map_def)

lemma toggleComplete_outside:
  "index < 0 \<or> int (length ts) \<le> index \<Longrightarrow> toggleComplete ts index = ts"
  using map_from_outside [of index 0 ts "\<lambda>t. t\<lparr>completed := \<not> completed t\<rparr>"]
  by (simp add: toggleComplete_def Array_map_def)

lemma toggleComplete_twice: "toggleComplete (toggleComplete ts index) index = ts"
  using map_from_twice [of "\<lambda>t. t\<lparr>completed := \<not> completed t\<rparr>" index 0 ts]
  by (simp add: toggleComplete_def Array_map_def)

lemma originalIndex_nth:
  "j < length ts \<Longrightarrow> distinct (map createdAt ts) \<Longrightarrow> originalIndex ts (ts ! j) = int j"
  using findIndex_from_distinct [of j ts createdAt 0]
  by (simp add: originalIndex_def Array_findIndex_def)

lemma take_drop_filter_distinct:
  "j < length xs \<Longrightarrow> distinct (map f xs) \<Longrightarrow>
   take j xs @ drop (Suc j) xs = filter (\<lambda>x. f x \<noteq> f (xs ! j)) xs"
proof (induction xs arbitrary: j)
  case Nil
  then show ?case by simp
next
  case (Cons x xs)
  show ?case
  proof (cases j)
    case 0
    with Cons.prems have "\<forall>y\<in>set xs. f y \<noteq> f x" by (auto simp: image_iff)
    then have "filter (\<lambda>y. f y \<noteq> f x) xs = xs" by (simp add: filter_id_conv)
    with 0 show ?thesis by simp
  next
    case (Suc j')
    with Cons.prems have j': "j' < length xs" and d: "distinct (map f xs)"
      and "f x \<notin> f ` set xs"
      by auto
    moreover from j' have "xs ! j' \<in> set xs" by simp
    ultimately have "f x \<noteq> f (xs ! j')" by (metis imageI)
    with Cons.IH [OF j' d] Suc show ?thesis by simp
  qed
qed

section \<open>Facts about the component\<close>

lemma list_all_trim: "list_all isWhiteSpace t \<Longrightarrow> trim t = []"
proof -
  assume "list_all isWhiteSpace t"
  then have d: "dropWhile isWhiteSpace t = []" by (simp add: list_all_iff)
  show ?thesis unfolding trim_def d by simp
qed

lemmas effect_defs =
  effect_localStorage_def effect_subscribe_def effect_saveTasks_def effect_savePreferences_def

lemma run_effects_frame:
  "tasks (run_effects c prev s) = tasks s"
  "newTask (run_effects c prev s) = newTask s"
  "priority_st (run_effects c prev s) = priority_st s"
  "userId (run_effects c prev s) = userId s"
  "isInitialLoadDone (run_effects c prev s) = isInitialLoadDone s"
  "darkMode (run_effects c prev s) = darkMode s"
  by (simp_all add: run_effects_def Let_def effect_defs split: option.splits)

lemma run_effects_idle: "run_effects False s s = s"
  by (simp add: run_effects_def)

lemma step_frame:
  "tasks (step s e) = tasks (apply_actions s (handler s e))"
  "newTask (step s e) = newTask (apply_actions s (handler s e))"
  "priority_st (step s e) = priority_st (apply_actions s (handler s e))"
  "userId (step s e) = userId (apply_actions s (handler s e))"
  "isInitialLoadDone (step s e) = isInitialLoadDone (apply_actions s (handler s e))"
  "darkMode (step s e) = darkMode (apply_actions s (handler s e))"
  by (simp_all add: step_def Let_def run_effects_frame)

section \<open>Facts about renders, effects and runs\<close>

lemma apply_actions_env:
  "writes (apply_actions s acts) = writes s"
  "subscription (apply_actions s acts) = subscription s"
proof -
  have "writes (foldl apply_action s acts) = writes s \<and>
        subscription (foldl apply_action s acts) = subscription s"
  proof (induction acts arbitrary: s)
    case Nil
    then show ?case by simp
  next
    case (Cons a acts)
    have "writes (apply_action s a) = writes s \<and>
          subscription (apply_action s a) = subscription s"
      by (cases a) simp_all
    with Cons.IH [of "apply_action s a"] show ?case by simp
  qed
  then show "writes (apply_actions s acts) = writes s"
    and "subscription (apply_actions s acts) = subscription s"
    by (simp_all add: apply_actions_def)
qed

lemma handler_userId:
  "userId (apply_actions s (handler s e)) =
     (case e of AuthStateChanged (Some v) \<Rightarrow> Some v | _ \<Rightarrow> userId s)"
  by (cases e)
    (simp_all add: apply_actions_def onAuthStateChanged_callback_def onSnapshot_callback_def
      addTask_def clearAllTasks_def split: option.splits)

lemma handler_isInitialLoadDone:
  "isInitialLoadDone (apply_actions s (handler s e)) =
     (isInitialLoadDone s \<or> (\<exists>v d. e = Snapshot v d \<and> subscription s = Some v))"
  by (cases e)
    (simp_all add: apply_actions_def onAuthStateChanged_callback_def onSnapshot_callback_def
      addTask_def clearAllTasks_def split: option.splits)

lemma run_effects_guarded:
  "userId s' = None \<or> userId s' = Some [] \<or> \<not> isInitialLoadDone s' \<Longrightarrow>
   writes (run_effects c s s') = writes s'"
  by (auto simp: run_effects_def Let_def effect_defs split: option.splits)

lemma run_effects_writes_grow:
  "\<exists>ws. writes (run_effects c s s') = writes s' @ ws"
  by (simp add: run_effects_def Let_def effect_defs split: option.splits)

lemma run_effects_first_write:
  "isInitialLoadDone s' \<Longrightarrow> \<not> isInitialLoadDone s \<Longrightarrow> userId s' = Some v \<Longrightarrow> v \<noteq> [] \<Longrightarrow>
   writes (run_effects c s s') \<noteq> []"
  by (auto simp: run_effects_def Let_def effect_defs split: option.splits)

lemma run_effects_subscription:
  "subscription (run_effects c s s') =
     (if userId s' \<noteq> userId s
      then (if userId s' = Some [] then None else userId s')
      else subscription s')"
  by (simp add: run_effects_def Let_def effect_defs split: option.splits)

lemma step_unfold:
  "step s e =
     run_effects (list_ex sets_tasks (handler s e)) s (apply_actions s (handler s e))"
  by (simp add: step_def Let_def)

lemma run_snoc: "run s (es @ [e]) = step (run s es) e"
  by (simp add: run_def)

lemma run_Nil: "run s [] = s"
  by (simp add: run_def)

lemma mounted_fields:
  "userId (mounted saved) = None"
  "subscription (mounted saved) = None"
  "isInitialLoadDone (mounted saved) = False"
  "writes (mounted saved) = []"
  by (simp_all add: mounted_def useState_initial_def effect_defs)

lemma step_guard_invariant:
  assumes sub: "\<forall>v. subscription s = Some v \<longrightarrow> userId s = Some v \<and> v \<noteq> []"
    and one: "userId s = None \<or> userId s = Some u"
    and wr: "isInitialLoadDone s \<longleftrightarrow> writes s \<noteq> []"
    and uid: "isInitialLoadDone s \<longrightarrow> (\<exists>v. userId s = Some v \<and> v \<noteq> [])"
    and e: "under_identity u e"
  shows "(\<forall>v. subscription (step s e) = Some v \<longrightarrow> userId (step s e) = Some v \<and> v \<noteq> []) \<and>
         (userId (step s e) = None \<or> userId (step s e) = Some u) \<and>
         (isInitialLoadDone (step s e) \<longleftrightarrow> writes (step s e) \<noteq> []) \<and>
         (isInitialLoadDone (step s e) \<longrightarrow> (\<exists>v. userId (step s e) = Some v \<and> v \<noteq> []))"
proof -
  define s1 where "s1 = apply_actions s (handler s e)"
  define c where "c = list_ex sets_tasks (handler s e)"
  have st: "step s e = run_effects c s s1"
    by (simp add: step_unfold s1_def c_def)
  have u1: "userId s1 = (case e of AuthStateChanged (Some v) \<Rightarrow> Some v | _ \<Rightarrow> userId s)"
    unfolding s1_def by (rule handler_userId)
  have f1: "isInitialLoadDone s1 =
      (isInitialLoadDone s \<or> (\<exists>v d. e = Snapshot v d \<and> subscription s = Some v))"
    unfolding s1_def by (rule handler_isInitialLoadDone)
  have w1: "writes s1 = writes s" and b1: "subscription s1 = subscription s"
    unfolding s1_def by (rule apply_actions_env)+
  have one1: "userId s1 = None \<or> userId s1 = Some u"
    using u1 one e by (cases e) (auto split: option.splits)
  have keep: "\<exists>v. userId s1 = Some v \<and> v \<noteq> []" if "userId s = Some v" and "v \<noteq> []" for v
  proof -
    from that one have "userId s = Some u" and "u \<noteq> []" by auto
    with one1 u1 show ?thesis by (cases e) (auto split: option.splits)
  qed
  have uid1: "\<exists>v. userId s1 = Some v \<and> v \<noteq> []" if "isInitialLoadDone s1"
  proof (cases "isInitialLoadDone s")
    case True
    with uid keep show ?thesis by blast
  next
    case False
    with that f1 obtain v where "subscription s = Some v" by auto
    with sub have "userId s = Some v" and "v \<noteq> []" by blast+
    then show ?thesis by (rule keep)
  qed
  have sub1: "userId s1 = Some v \<and> v \<noteq> []" if "subscription (run_effects c s s1) = Some v" for v
  proof (cases "userId s1 = userId s")
    case True
    with that b1 have "subscription s = Some v" by (simp add: run_effects_subscription)
    with sub True show ?thesis by simp
  next
    case False
    with that show ?thesis
      by (auto simp: run_effects_subscription split: if_splits)
  qed
  have wr1: "isInitialLoadDone s1 \<longleftrightarrow> writes (run_effects c s s1) \<noteq> []"
  proof (cases "isInitialLoadDone s1")
    case False
    then have "writes (run_effects c s s1) = writes s1"
      by (simp add: run_effects_guarded)
    moreover from False f1 have "\<not> isInitialLoadDone s" by simp
    ultimately show ?thesis using False wr w1 by simp
  next
    case True
    show ?thesis
    proof (cases "isInitialLoadDone s")
      case True
      with wr w1 have "writes s1 \<noteq> []" by simp
      moreover obtain ws where "writes (run_effects c s s1) = writes s1 @ ws"
        using run_effects_writes_grow by blast
      ultimately show ?thesis using \<open>isInitialLoadDone s1\<close> by simp
    next
      case False
      from uid1 [OF True] obtain v where "userId s1 = Some v" and "v \<noteq> []" by blast
      with True False have "writes (run_effects c s s1) \<noteq> []"
        by (rule run_effects_first_write)
      with True show ?thesis by simp
    qed
  qed
  show ?thesis
    unfolding st using sub1 one1 wr1 uid1 by (simp add: run_effects_frame)
qed

lemma run_guard_invariant:
  assumes "list_all (under_identity u) es"
  shows "(\<forall>v. subscription (run (mounted saved) es) = Some v \<longrightarrow>
            userId (run (mounted saved) es) = Some v \<and> v \<noteq> []) \<and>
         (userId (run (mounted saved) es) = None \<or> userId (run (mounted saved) es) = Some u) \<and>
         (isInitialLoadDone (run (mounted saved) es) \<longleftrightarrow> writes (run (mounted saved) es) \<noteq> []) \<and>
         (isInitialLoadDone (run (mounted saved) es) \<longrightarrow>
            (\<exists>v. userId (run (mounted saved) es) = Some v \<and> v \<noteq> []))"
  using assms
proof (induction es rule: rev_induct)
  case Nil
  show ?case by (simp add: run_Nil mounted_fields)
next
  case (snoc e es)
  then have "list_all (under_identity u) es" and "under_identity u e" by simp_all
  with snoc.IH show ?case
    unfolding run_snoc by (intro step_guard_invariant) simp_all
qed

lemma step_local_mutation_guarded:
  assumes "userId s = None \<or> \<not> isInitialLoadDone s" and "local_mutation e"
  shows "writes (step s e) = writes s"
proof -
  from assms(2) have "userId (apply_actions s (handler s e)) = userId s"
    and "isInitialLoadDone (apply_actions s (handler s e)) = isInitialLoadDone s"
    unfolding handler_userId handler_isInitialLoadDone by (cases e; simp)+
  with assms(1)
  have "userId (apply_actions s (handler s e)) = None \<or>
        userId (apply_actions s (handler s e)) = Some [] \<or>
        \<not> isInitialLoadDone (apply_actions s (handler s e))"
    by auto
  then have "writes (step s e) = writes (apply_actions s (handler s e))"
    unfolding step_unfold by (rule run_effects_guarded)
  then show ?thesis by (simp add: apply_actions_env)
qed

lemma run_effects_writes_shape:
  assumes old: "\<forall>w\<in>set (writes s'). Q w"
    and t: "\<And>uid ts. Q \<lparr>w_uid = uid,
        w_data = \<lparr>doc_tasks = Some ts, doc_preferences = None, doc_others = []\<rparr>,
        w_merge = True\<rparr>"
    and p: "\<And>uid b. Q \<lparr>w_uid = uid,
        w_data = \<lparr>doc_tasks = None, doc_preferences = Some \<lparr>pref_darkMode = Some b\<rparr>,
                  doc_others = []\<rparr>,
        w_merge = True\<rparr>"
  shows "\<forall>w\<in>set (writes (run_effects c s s')). Q w"
  using old t p
  by (auto simp: run_effects_def Let_def effect_defs split: option.splits)

lemma run_writes_shape:
  assumes t: "\<And>uid ts. Q \<lparr>w_uid = uid,
        w_data = \<lparr>doc_tasks = Some ts, doc_preferences = None, doc_others = []\<rparr>,
        w_merge = True\<rparr>"
    and p: "\<And>uid b. Q \<lparr>w_uid = uid,
        w_data = \<lparr>doc_tasks = None, doc_preferences = Some \<lparr>pref_darkMode = Some b\<rparr>,
                  doc_others = []\<rparr>,
        w_merge = True\<rparr>"
  shows "\<forall>w\<in>set (writes (run (mounted saved) es)). Q w"
proof (induction es rule: rev_induct)
  case Nil
  show ?case by (simp add: run_Nil mounted_fields)
next
  case (snoc e es)
  let ?s = "run (mounted saved) es"
  from snoc have "\<forall>w\<in>set (writes (apply_actions ?s (handler ?s e))). Q w"
    by (simp add: apply_actions_env)
  then show ?case
    unfolding run_snoc step_unfold by (rule run_effects_writes_shape) (rule t p)+
qed

lemma store_write_tasks_only:
  "store_write (Some d)
     \<lparr>w_uid = uid, w_data = \<lparr>doc_tasks = Some ts, doc_preferences = None, doc_others = []\<rparr>,
      w_merge = True\<rparr> = d\<lparr>doc_tasks := Some ts\<rparr>"
  by (simp add: store_write_def merge_fields_def)

lemma store_write_preferences_only:
  "store_write (Some d)
     \<lparr>w_uid = uid,
      w_data = \<lparr>doc_tasks = None, doc_preferences = Some p, doc_others = []\<rparr>,
      w_merge = True\<rparr> = d\<lparr>doc_preferences := Some p\<rparr>"
  by (simp add: store_write_def merge_fields_def)

lemma step_task_mutation_writes:
  assumes "userId s = Some uid" and "uid \<noteq> []" and "isInitialLoadDone s"
  shows "writes (step s (ClickDelete i)) = writes s @
           [\<lparr>w_uid = uid,
             w_data = \<lparr>doc_tasks = Some (deleteTask (tasks s) i), doc_preferences = None,
                       doc_others = []\<rparr>,
             w_merge = True\<rparr>]"
  using assms
  by (simp add: step_unfold apply_actions_def run_effects_def Let_def effect_defs)

lemma step_theme_writes:
  assumes "userId s = Some uid" and "uid \<noteq> []" and "isInitialLoadDone s"
  shows "writes (step s ClickTheme) = writes s @
           [\<lparr>w_uid = uid,
             w_data = \<lparr>doc_tasks = None,
                       doc_preferences = Some \<lparr>pref_darkMode = Some (\<not> darkMode s)\<rparr>,
                       doc_others = []\<rparr>,
             w_merge = True\<rparr>]"
  using assms
  by (simp add: step_unfold apply_actions_def run_effects_def Let_def effect_defs)

lemmas session_defs =
  example_session_def example_document_def run_def step_unfold mounted_def
  useState_initial_def effect_defs run_effects_def onAuthStateChanged_callback_def
  onSnapshot_callback_def apply_actions_def Let_def deleteTask_def Array_filter_def

lemma example_session_writes:
  "writes (run (mounted None) example_session) =
     [\<lparr>w_uid = ''u1'',
       w_data = \<lparr>doc_tasks = Some [task_a, task_b], doc_preferences = None,
                 doc_others = []\<rparr>,
       w_merge = True\<rparr>,
      preferences_write, tasks_write]"
  by (simp add: session_defs preferences_write_def tasks_write_def)

lemma example_session_before_snapshot:
  "userId (run (mounted None) [AuthStateChanged (Some ''u1''), ClickTheme]) = Some ''u1''"
  "writes (run (mounted None) [AuthStateChanged (Some ''u1''), ClickTheme]) = []"
  by (simp_all add: session_defs)

section \<open>Sorting for display\<close>

text \<open>
  Claim C2. \<open>sortedTasks\<close> orders the tasks by priority, highest first, with
  \<open>high = 3\<close>, \<open>medium = 2\<close> and \<open>low = 1\<close>, and tasks of equal priority by
  \<open>createdAt\<close>, most recent first, whatever the timestamps of tasks of other priorities
  are. It is a rearrangement of the list, it is stable (tasks with the same priority and
  timestamp keep their order), and it sorts a copy: the array behind the reference of
  \<open>tasks\<close> holds the same list afterwards.
\<close>

theorem sortedTasks_priority_then_recent:
  "prioOrder high = 3 \<and> prioOrder medium = 2 \<and> prioOrder low = 1 \<and>
   mset (sortedTasks ts) = mset ts \<and>
   sorted_wrt (\<lambda>a b. prioOrder (priority b) < prioOrder (priority a) \<or>
      (priority a = priority b \<and> createdAt b \<le> createdAt a)) (sortedTasks ts) \<and>
   filter (\<lambda>t. priority t = p \<and> createdAt t = c) (sortedTasks ts) =
     filter (\<lambda>t. priority t = p \<and> createdAt t = c) ts \<and>
   (arrays h r = Some ts \<and> next_ref h \<noteq> r \<longrightarrow>
      (\<exists>h'. render_sortedTasks r h = Some (next_ref h, h') \<and>
            arrays h' (next_ref h) = Some (sortedTasks ts) \<and>
            arrays h' r = Some ts))"
proof -
  have "arrays h r = Some ts \<and> next_ref h \<noteq> r \<longrightarrow>
      (\<exists>h'. render_sortedTasks r h = Some (next_ref h, h') \<and>
            arrays h' (next_ref h) = Some (sortedTasks ts) \<and>
            arrays h' r = Some ts)"
    by (simp add: render_sortedTasks_def spread_def sort_in_place_def sortedTasks_def)
  moreover have "mset (sortedTasks ts) = mset ts"
    by (simp add: sortedTasks_def mset_Array_sort)
  ultimately show ?thesis
    using sortedTasks_sorted [of ts] sortedTasks_stable [of p c ts] by simp
qed

theorem sortedTasks_priority_then_recent_witness:
  "sortedTasks [task_a, task_b, task_c, task_d] = [task_d, task_b, task_c, task_a] \<and>
   filter (\<lambda>t. priority t = high \<and> createdAt t = 1)
     (sortedTasks [task_a, task_b, task_c, task_d]) = [task_b, task_c] \<and>
   arrays example_heap 0 = Some [task_a, task_b, task_c, task_d] \<and>
   next_ref example_heap \<noteq> 0 \<and>
   (\<exists>h'. render_sortedTasks 0 example_heap = Some (1, h') \<and>
         arrays h' 1 = Some [task_d, task_b, task_c, task_a] \<and>
         arrays h' 0 = Some [task_a, task_b, task_c, task_d])"
proof -
  have s: "sortedTasks [task_a, task_b, task_c, task_d] = [task_d, task_b, task_c, task_a]"
    by (simp add: sortedTasks_def Array_sort_def compareTasks_def
        task_a_def task_b_def task_c_def task_d_def)
  have h: "arrays example_heap 0 = Some [task_a, task_b, task_c, task_d]"
    "next_ref example_heap \<noteq> 0" "next_ref example_heap = 1"
    by (simp_all add: example_heap_def)
  have f: "filter (\<lambda>t. priority t = high \<and> createdAt t = 1) [task_a, task_b, task_c, task_d]
          = [task_b, task_c]"
    by (simp add: task_a_def task_b_def task_c_def task_d_def)
  show ?thesis
    using sortedTasks_priority_then_recent
      [of "[task_a, task_b, task_c, task_d]" high 1 example_heap 0] s h f
    by auto
qed

section \<open>Removing a task\<close>

text \<open>
  Claim C3. For a valid index \<open>i\<close> (so the list is not empty), \<open>deleteTask\<close> returns the
  list without its element at \<open>i\<close>: one element shorter, the others in their order.
  When the \<open>createdAt\<close> values of the list are distinct, the index that \<open>originalIndex\<close>
  finds for a displayed task is the position of that very task, and deleting at it
  removes exactly the task with that \<open>createdAt\<close>.
\<close>

theorem deleteTask_removes_target:
  assumes "0 \<le> i" and "i < int (length ts)"
  shows "length (deleteTask ts i) = length ts - 1 \<and>
         deleteTask ts i = take (nat i) ts @ drop (Suc (nat i)) ts \<and>
         (distinct (map createdAt ts) \<longrightarrow>
            (\<forall>task \<in> set (sortedTasks ts).
               0 \<le> originalIndex ts task \<and> originalIndex ts task < int (length ts) \<and>
               ts ! nat (originalIndex ts task) = task \<and>
               deleteTask ts (originalIndex ts task) =
                 filter (\<lambda>t. createdAt t \<noteq> createdAt task) ts \<and>
               length (deleteTask ts (originalIndex ts task)) = length ts - 1 \<and>
               set (deleteTask ts (originalIndex ts task)) = set ts - {task}))"
proof -
  from assms have i: "nat i < length ts" and ii: "int (nat i) = i" by auto
  have d: "deleteTask ts i = take (nat i) ts @ drop (Suc (nat i)) ts"
    using deleteTask_at [OF i] ii by simp
  have l: "length (deleteTask ts i) = length ts - 1"
    unfolding d using i by simp
  have o: "0 \<le> originalIndex ts task \<and> originalIndex ts task < int (length ts) \<and>
           ts ! nat (originalIndex ts task) = task \<and>
           deleteTask ts (originalIndex ts task) =
             filter (\<lambda>t. createdAt t \<noteq> createdAt task) ts \<and>
           length (deleteTask ts (originalIndex ts task)) = length ts - 1 \<and>
           set (deleteTask ts (originalIndex ts task)) = set ts - {task}"
    if dist: "distinct (map createdAt ts)" and mem: "task \<in> set (sortedTasks ts)" for task
  proof -
    from mem have "task \<in> set ts"
      using mset_Array_sort [of compareTasks ts]
      by (metis sortedTasks_def set_mset_mset)
    then obtain j where j: "j < length ts" and tj: "ts ! j = task"
      by (auto simp: in_set_conv_nth)
    have oi: "originalIndex ts task = int j"
      using originalIndex_nth [OF j dist] tj by simp
    have del: "deleteTask ts (int j) = filter (\<lambda>t. createdAt t \<noteq> createdAt task) ts"
      using deleteTask_at [OF j] take_drop_filter_distinct [OF j dist] tj by simp
    have len: "length (deleteTask ts (int j)) = length ts - 1"
      using deleteTask_at [OF j] j by simp
    have inj: "inj_on createdAt (set ts)"
      using dist by (simp add: distinct_map)
    have "set (filter (\<lambda>t. createdAt t \<noteq> createdAt task) ts) = set ts - {task}"
      using inj \<open>task \<in> set ts\<close> by (auto dest: inj_onD)
    with oi j tj del len show ?thesis by simp
  qed
  from d l o show ?thesis by blast
qed

theorem deleteTask_removes_target_witness:
  "(0::int) \<le> 1 \<and> (1::int) < int (length [task_a, task_b, task_d]) \<and>
   distinct (map createdAt [task_a, task_b, task_d]) \<and>
   task_d \<in> set (sortedTasks [task_a, task_b, task_d]) \<and>
   deleteTask [task_a, task_b, task_d] 1 = [task_a, task_d] \<and>
   originalIndex [task_a, task_b, task_d] task_d = 2 \<and>
   deleteTask [task_a, task_b, task_d] (originalIndex [task_a, task_b, task_d] task_d) =
     [task_a, task_b]"
proof -
  have p: "(0::int) \<le> 1" "(1::int) < int (length [task_a, task_b, task_d])"
    by simp_all
  have dist: "distinct (map createdAt [task_a, task_b, task_d])"
    by (simp add: task_a_def task_b_def task_d_def)
  have s: "sortedTasks [task_a, task_b, task_d] = [task_d, task_b, task_a]"
    by (simp add: sortedTasks_def Array_sort_def compareTasks_def
        task_a_def task_b_def task_d_def)
  have oi: "originalIndex [task_a, task_b, task_d] task_d = 2"
    by (simp add: originalIndex_def Array_findIndex_def task_a_def task_b_def task_d_def)
  have f: "filter (\<lambda>t. createdAt t \<noteq> createdAt task_d) [task_a, task_b, task_d] =
           [task_a, task_b]"
    by (simp add: task_a_def task_b_def task_d_def)
  show ?thesis
    using deleteTask_removes_target [OF p] dist s oi f by simp
qed

section \<open>Adding a task\<close>

text \<open>
  Claim C4. When the trimmed input is not empty, adding appends one task to the end of
  the list: its text is the trimmed input, it is not completed, its priority is the
  selected one and its \<open>createdAt\<close> is the current time. The list is one longer and the
  tasks it held are unchanged.
\<close>

theorem addTask_appends:
  assumes "trim (newTask s) \<noteq> []"
  shows "tasks (step s (ClickAdd now)) =
           tasks s @ [\<lparr>text' = trim (newTask s), completed = False,
                       priority = priority_st s, createdAt = now\<rparr>] \<and>
         length (tasks (step s (ClickAdd now))) = length (tasks s) + 1 \<and>
         take (length (tasks s)) (tasks (step s (ClickAdd now))) = tasks s"
  using assms by (simp add: step_frame addTask_def apply_actions_def)

theorem addTask_appends_witness:
  "trim (newTask typing_state) \<noteq> [] \<and>
   tasks (step typing_state (ClickAdd 1700000000000)) =
     [\<lparr>text' = js_of ''Buy milk'', completed = False, priority = high,
       createdAt = 1700000000000\<rparr>]"
proof -
  have t: "trim (newTask typing_state) = js_of ''Buy milk''"
    by (simp add: typing_state_def trim_def js_of_def isWhiteSpace_def)
  then have n: "trim (newTask typing_state) \<noteq> []"
    by (simp add: js_of_def)
  have "tasks typing_state = []" "priority_st typing_state = high"
    by (simp_all add: typing_state_def)
  with addTask_appends [OF n, of 1700000000000] t n show ?thesis by simp
qed

text \<open>
  Claim C8. Adding with an input that is empty or holds only white space does nothing:
  the handler sets no state, and the task list (the whole state) is as before.
\<close>

theorem addTask_blank_noop:
  assumes "list_all isWhiteSpace (newTask s)"
  shows "trim (newTask s) = [] \<and> addTask s now = [] \<and>
         tasks (step s (ClickAdd now)) = tasks s \<and> step s (ClickAdd now) = s"
proof -
  from assms have t: "trim (newTask s) = []" by (rule list_all_trim)
  then have a: "addTask s now = []" by (simp add: addTask_def)
  then have "step s (ClickAdd now) = s"
    by (simp add: step_def apply_actions_def run_effects_idle)
  with t a show ?thesis by simp
qed

theorem addTask_blank_noop_witness:
  "list_all isWhiteSpace (newTask blank_state) \<and>
   newTask blank_state = js_of ''   '' \<and>
   list_all isWhiteSpace (newTask (blank_state\<lparr>newTask := []\<rparr>)) \<and>
   tasks (step blank_state (ClickAdd 5)) = tasks blank_state \<and>
   step (blank_state\<lparr>newTask := []\<rparr>) (ClickAdd 5) = blank_state\<lparr>newTask := []\<rparr>"
proof -
  have b: "list_all isWhiteSpace (newTask blank_state)"
    and n: "newTask blank_state = js_of ''   ''"
    by (simp_all add: blank_state_def js_of_def isWhiteSpace_def)
  have e: "list_all isWhiteSpace (newTask (blank_state\<lparr>newTask := []\<rparr>))"
    by simp
  from addTask_blank_noop [OF b, of 5] addTask_blank_noop [OF e, of 5] b n e
  show ?thesis by simp
qed

text \<open>
  Claim C10. After an add that goes through, the input text is the empty string and the
  selected priority is \<open>medium\<close>. After an add that does nothing (blank input), the
  handler has set no state: the input text and the selected priority are as they were.
\<close>

theorem addTask_resets_input:
  "(if trim (newTask s) = []
    then addTask s now = [] \<and>
         newTask (step s (ClickAdd now)) = newTask s \<and>
         priority_st (step s (ClickAdd now)) = priority_st s
    else newTask (step s (ClickAdd now)) = [] \<and>
         priority_st (step s (ClickAdd now)) = medium)"
  by (simp add: step_frame addTask_def apply_actions_def)

theorem addTask_resets_input_witness:
  "trim (newTask typing_state) \<noteq> [] \<and>
   newTask (step typing_state (ClickAdd 5)) = [] \<and>
   priority_st (step typing_state (ClickAdd 5)) = medium \<and>
   trim (newTask blank_state) = [] \<and>
   newTask (step blank_state (ClickAdd 5)) = js_of ''   '' \<and>
   priority_st (step blank_state (ClickAdd 5)) = high"
proof -
  have t: "trim (newTask typing_state) \<noteq> []"
    by (simp add: typing_state_def trim_def js_of_def isWhiteSpace_def)
  have b: "trim (newTask blank_state) = []"
    by (simp add: blank_state_def trim_def js_of_def isWhiteSpace_def)
  have f: "newTask blank_state = js_of ''   ''" "priority_st blank_state = high"
    by (simp_all add: blank_state_def typing_state_def)
  from addTask_resets_input [of typing_state 5] addTask_resets_input [of blank_state 5] t b f
  show ?thesis by simp
qed

section \<open>Toggling a task\<close>

text \<open>
  Claim C7. For a valid index \<open>i\<close>, \<open>toggleComplete\<close> replaces the element at \<open>i\<close> by
  itself with \<open>completed\<close> negated and changes nothing else: no other element, and no
  other field of that element. Toggling twice at the same index gives the list back.
\<close>

theorem toggleComplete_flips_involution:
  assumes "0 \<le> i" and "i < int (length ts)"
  shows "toggleComplete ts i =
           ts[nat i := (ts ! nat i)\<lparr>completed := \<not> completed (ts ! nat i)\<rparr>] \<and>
         completed (toggleComplete ts i ! nat i) = (\<not> completed (ts ! nat i)) \<and>
         text' (toggleComplete ts i ! nat i) = text' (ts ! nat i) \<and>
         priority (toggleComplete ts i ! nat i) = priority (ts ! nat i) \<and>
         createdAt (toggleComplete ts i ! nat i) = createdAt (ts ! nat i) \<and>
         toggleComplete (toggleComplete ts i) i = ts"
proof -
  from assms have i: "nat i < length ts" and ii: "int (nat i) = i" by auto
  have t: "toggleComplete ts i =
          ts[nat i := (ts ! nat i)\<lparr>completed := \<not> completed (ts ! nat i)\<rparr>]"
    using toggleComplete_at [OF i] ii by simp
  have "toggleComplete (toggleComplete ts i) i = ts"
    by (rule toggleComplete_twice)
  moreover from i have "completed (toggleComplete ts i ! nat i) = (\<not> completed (ts ! nat i))"
    and "text' (toggleComplete ts i ! nat i) = text' (ts ! nat i)"
    and "priority (toggleComplete ts i ! nat i) = priority (ts ! nat i)"
    and "createdAt (toggleComplete ts i ! nat i) = createdAt (ts ! nat i)"
    unfolding t by simp_all
  ultimately show ?thesis using t by blast
qed

theorem toggleComplete_flips_involution_witness:
  "(0::int) \<le> 1 \<and> (1::int) < int (length [task_a, task_b, task_d]) \<and>
   toggleComplete [task_a, task_b, task_d] 1 =
     [task_a, task_b\<lparr>completed := True\<rparr>, task_d] \<and>
   toggleComplete (toggleComplete [task_a, task_b, task_d] 1) 1 = [task_a, task_b, task_d]"
proof -
  have p: "(0::int) \<le> 1" "(1::int) < int (length [task_a, task_b, task_d])"
    by simp_all
  have c: "\<not> completed task_b" by (simp add: task_b_def)
  from toggleComplete_flips_involution [OF p]
  have a: "toggleComplete [task_a, task_b, task_d] 1 =
      [task_a, task_b, task_d][nat 1 :=
        ([task_a, task_b, task_d] ! nat 1)\<lparr>completed :=
          \<not> completed ([task_a, task_b, task_d] ! nat 1)\<rparr>]"
    and b: "toggleComplete (toggleComplete [task_a, task_b, task_d] 1) 1 =
      [task_a, task_b, task_d]"
    by blast+
  from a c have "toggleComplete [task_a, task_b, task_d] 1 =
      [task_a, task_b\<lparr>completed := True\<rparr>, task_d]"
    by simp
  with b p show ?thesis by blast
qed

section \<open>Indices outside the list\<close>

text \<open>
  Claim C9. With an index that is negative or not below the length, \<open>deleteTask\<close> and
  \<open>toggleComplete\<close> both return the list as it is: the filter keeps every element and
  the map sends every element to itself.
\<close>

theorem out_of_range_index_unchanged:
  assumes "index < 0 \<or> int (length ts) \<le> index"
  shows "deleteTask ts index = ts \<and> toggleComplete ts index = ts"
  using assms by (simp add: deleteTask_outside toggleComplete_outside)

theorem out_of_range_index_unchanged_witness:
  "((- 1 :: int) < 0 \<or> int (length [task_a, task_b]) \<le> - 1) \<and>
   ((2 :: int) < 0 \<or> int (length [task_a, task_b]) \<le> 2) \<and>
   deleteTask [task_a, task_b] (- 1) = [task_a, task_b] \<and>
   toggleComplete [task_a, task_b] (- 1) = [task_a, task_b] \<and>
   deleteTask [task_a, task_b] 2 = [task_a, task_b] \<and>
   toggleComplete [task_a, task_b] 2 = [task_a, task_b]"
proof -
  have n: "(- 1 :: int) < 0 \<or> int (length [task_a, task_b]) \<le> - 1" by simp
  have l: "(2 :: int) < 0 \<or> int (length [task_a, task_b]) \<le> 2" by simp
  from out_of_range_index_unchanged [OF n] out_of_range_index_unchanged [OF l] n l
  show ?thesis by simp
qed

section \<open>Processing a snapshot\<close>

text \<open>
  Claim C5. When the listener delivers a snapshot: if the document exists, the local
  tasks become the snapshot's \<open>tasks\<close>, or the empty list when that field is absent, and
  \<open>darkMode\<close> is set exactly when \<open>preferences.darkMode\<close> is defined, to that value; if
  the document does not exist, the local tasks become empty and \<open>darkMode\<close> is not set.
\<close>

theorem onSnapshot_replaces_local_state:
  assumes "subscription s = Some uid"
  shows "(case docSnap of
            None \<Rightarrow>
              tasks (step s (Snapshot uid docSnap)) = [] \<and>
              darkMode (step s (Snapshot uid docSnap)) = darkMode s \<and>
              \<not> list_ex (\<lambda>a. \<exists>b. a = setDarkMode b) (handler s (Snapshot uid docSnap))
          | Some data \<Rightarrow>
              tasks (step s (Snapshot uid docSnap)) =
                (case doc_tasks data of Some ts \<Rightarrow> ts | None \<Rightarrow> []) \<and>
              (case doc_preferences data of
                 None \<Rightarrow>
                   darkMode (step s (Snapshot uid docSnap)) = darkMode s \<and>
                   \<not> list_ex (\<lambda>a. \<exists>b. a = setDarkMode b) (handler s (Snapshot uid docSnap))
               | Some p \<Rightarrow>
                   (case pref_darkMode p of
                      None \<Rightarrow>
                        darkMode (step s (Snapshot uid docSnap)) = darkMode s \<and>
                        \<not> list_ex (\<lambda>a. \<exists>b. a = setDarkMode b)
                            (handler s (Snapshot uid docSnap))
                    | Some b \<Rightarrow>
                        darkMode (step s (Snapshot uid docSnap)) = b \<and>
                        setDarkMode b \<in> set (handler s (Snapshot uid docSnap)))))"
  using assms
  by (simp add: step_frame onSnapshot_callback_def apply_actions_def
      split: option.splits)

theorem onSnapshot_replaces_local_state_witness:
  "subscription typing_state = Some ''u1'' \<and>
   tasks (step typing_state (Snapshot ''u1'' (Some example_document))) = [task_a, task_b] \<and>
   darkMode (step typing_state (Snapshot ''u1'' (Some example_document))) = True \<and>
   tasks (step typing_state (Snapshot ''u1'' (Some (example_document\<lparr>doc_tasks := None,
      doc_preferences := None\<rparr>)))) = [] \<and>
   darkMode (step typing_state (Snapshot ''u1'' (Some (example_document\<lparr>doc_tasks := None,
      doc_preferences := None\<rparr>)))) = darkMode typing_state \<and>
   tasks (step (typing_state\<lparr>tasks := [task_c]\<rparr>) (Snapshot ''u1'' None)) = [] \<and>
   darkMode (step (typing_state\<lparr>tasks := [task_c]\<rparr>) (Snapshot ''u1'' None)) =
     darkMode typing_state"
proof -
  have u: "subscription typing_state = Some ''u1''"
    and u': "subscription (typing_state\<lparr>tasks := [task_c]\<rparr>) = Some ''u1''"
    by (simp_all add: typing_state_def)
  from onSnapshot_replaces_local_state [OF u, of "Some example_document"]
    onSnapshot_replaces_local_state [OF u,
      of "Some (example_document\<lparr>doc_tasks := None, doc_preferences := None\<rparr>)"]
    onSnapshot_replaces_local_state [OF u', of None] u
  show ?thesis by (simp add: example_document_def)
qed

section \<open>The write guard\<close>

text \<open>
  Claim C1. In a session under one identity \<open>u\<close>, started from the mounted component:
  if any write has been issued to the store after a sequence of events, then the
  sequence contains a snapshot for \<open>u\<close> that was delivered while \<open>u\<close> was the current
  identity and its listener was subscribed, and up to that snapshot there was no write
  and the initial-load flag was unset. And in any state with no identity or with the
  flag unset, a local mutation (a task or theme change) issues no write.
\<close>

theorem no_write_before_first_snapshot:
  assumes "list_all (under_identity u) es"
  shows "(writes (run (mounted saved) es) \<noteq> [] \<longrightarrow>
            (\<exists>pre d post. es = pre @ Snapshot u d # post \<and>
               userId (run (mounted saved) pre) = Some u \<and>
               subscription (run (mounted saved) pre) = Some u \<and>
               \<not> isInitialLoadDone (run (mounted saved) pre) \<and>
               writes (run (mounted saved) pre) = [])) \<and>
         (\<forall>s e. (userId s = None \<or> \<not> isInitialLoadDone s) \<and> local_mutation e \<longrightarrow>
            writes (step s e) = writes s)"
proof -
  have "writes (run (mounted saved) es) \<noteq> [] \<longrightarrow>
          (\<exists>pre d post. es = pre @ Snapshot u d # post \<and>
             userId (run (mounted saved) pre) = Some u \<and>
             subscription (run (mounted saved) pre) = Some u \<and>
             \<not> isInitialLoadDone (run (mounted saved) pre) \<and>
             writes (run (mounted saved) pre) = [])"
    using assms
  proof (induction es rule: rev_induct)
    case Nil
    show ?case by (simp add: run_Nil mounted_fields)
  next
    case (snoc e es)
    then have es: "list_all (under_identity u) es" by simp
    let ?s = "run (mounted saved) es"
    show ?case
    proof
      assume w: "writes (run (mounted saved) (es @ [e])) \<noteq> []"
      show "\<exists>pre d post. es @ [e] = pre @ Snapshot u d # post \<and>
             userId (run (mounted saved) pre) = Some u \<and>
             subscription (run (mounted saved) pre) = Some u \<and>
             \<not> isInitialLoadDone (run (mounted saved) pre) \<and>
             writes (run (mounted saved) pre) = []"
      proof (cases "writes ?s = []")
        case False
        with snoc.IH [OF es] obtain pre d post where
          "es = pre @ Snapshot u d # post"
          "userId (run (mounted saved) pre) = Some u"
          "subscription (run (mounted saved) pre) = Some u"
          "\<not> isInitialLoadDone (run (mounted saved) pre)"
          "writes (run (mounted saved) pre) = []"
          by blast
        then have "es @ [e] = pre @ Snapshot u d # (post @ [e])" by simp
        then show ?thesis
          using \<open>userId (run (mounted saved) pre) = Some u\<close>
            \<open>subscription (run (mounted saved) pre) = Some u\<close>
            \<open>\<not> isInitialLoadDone (run (mounted saved) pre)\<close>
            \<open>writes (run (mounted saved) pre) = []\<close>
          by blast
      next
        case True
        from run_guard_invariant [OF es, of saved] True
        have sub: "\<forall>v. subscription ?s = Some v \<longrightarrow> userId ?s = Some v \<and> v \<noteq> []"
          and one: "userId ?s = None \<or> userId ?s = Some u"
          and nf: "\<not> isInitialLoadDone ?s"
          by simp_all
        from run_guard_invariant [OF snoc.prems, of saved] w
        have "isInitialLoadDone (step ?s e)" by (simp add: run_snoc)
        then have "isInitialLoadDone (apply_actions ?s (handler ?s e))"
          by (simp add: step_frame)
        with nf obtain v d where e: "e = Snapshot v d" and v: "subscription ?s = Some v"
          unfolding handler_isInitialLoadDone by blast
        from v sub have uv: "userId ?s = Some v" by blast
        with one have "v = u" by auto
        with e v uv nf True show ?thesis by auto
      qed
    qed
  qed
  then show ?thesis
    by (simp add: step_local_mutation_guarded)
qed

theorem no_write_before_first_snapshot_witness:
  "list_all (under_identity ''u1'') example_session \<and>
   writes (run (mounted None) example_session) \<noteq> [] \<and>
   (\<exists>pre d post. example_session = pre @ Snapshot ''u1'' d # post \<and>
      userId (run (mounted None) pre) = Some ''u1'' \<and>
      subscription (run (mounted None) pre) = Some ''u1'' \<and>
      \<not> isInitialLoadDone (run (mounted None) pre) \<and>
      writes (run (mounted None) pre) = []) \<and>
   writes (run (mounted None) [AuthStateChanged (Some ''u1''), ClickTheme]) = [] \<and>
   userId (mounted None) = None \<and> local_mutation ClickTheme \<and>
   writes (step (mounted None) ClickTheme) = writes (mounted None)"
proof -
  have l: "list_all (under_identity ''u1'') example_session"
    by (simp add: example_session_def)
  have w: "writes (run (mounted None) example_session) \<noteq> []"
    by (simp add: example_session_writes)
  have u: "userId (mounted None) = None" by (simp add: mounted_fields)
  have m: "local_mutation ClickTheme" by simp
  from no_write_before_first_snapshot [OF l, of None] w
  have ex: "\<exists>pre d post. example_session = pre @ Snapshot ''u1'' d # post \<and>
      userId (run (mounted None) pre) = Some ''u1'' \<and>
      subscription (run (mounted None) pre) = Some ''u1'' \<and>
      \<not> isInitialLoadDone (run (mounted None) pre) \<and>
      writes (run (mounted None) pre) = []"
    and st: "\<forall>s e. (userId s = None \<or> \<not> isInitialLoadDone s) \<and> local_mutation e \<longrightarrow>
      writes (step s e) = writes s"
    by blast+
  from st u m have "writes (step (mounted None) ClickTheme) = writes (mounted None)"
    by blast
  with l w ex u m example_session_before_snapshot(2) show ?thesis by blast
qed

section \<open>What a write carries\<close>

text \<open>
  Claim C6. Every write the component issues is a merge, and its object holds either the
  \<open>tasks\<close> field alone or \<open>preferences\<close> alone, the latter with just \<open>darkMode\<close>. Applied
  to an existing document, the first changes the \<open>tasks\<close> field and leaves
  \<open>preferences\<close> and every other top-level field as they were; the second changes
  \<open>preferences\<close> and leaves \<open>tasks\<close> and the other fields as they were. Once the guard
  passes, a change of the task list issues one write of the first kind with the new list,
  and a change of the theme one write of the second kind with the new value.
\<close>

theorem writes_touch_one_field:
  assumes "w \<in> set (writes (run (mounted saved) es))"
  shows "w_merge w \<and>
         ((\<exists>ts. w_data w = \<lparr>doc_tasks = Some ts, doc_preferences = None, doc_others = []\<rparr> \<and>
                (\<forall>d. store_write (Some d) w = d\<lparr>doc_tasks := Some ts\<rparr>)) \<or>
          (\<exists>b. w_data w = \<lparr>doc_tasks = None,
                            doc_preferences = Some \<lparr>pref_darkMode = Some b\<rparr>,
                            doc_others = []\<rparr> \<and>
                (\<forall>d. store_write (Some d) w =
                   d\<lparr>doc_preferences := Some \<lparr>pref_darkMode = Some b\<rparr>\<rparr>))) \<and>
         (\<forall>s uid i. userId s = Some uid \<and> uid \<noteq> [] \<and> isInitialLoadDone s \<longrightarrow>
            writes (step s (ClickDelete i)) = writes s @
              [\<lparr>w_uid = uid,
                w_data = \<lparr>doc_tasks = Some (deleteTask (tasks s) i), doc_preferences = None,
                          doc_others = []\<rparr>,
                w_merge = True\<rparr>] \<and>
            writes (step s ClickTheme) = writes s @
              [\<lparr>w_uid = uid,
                w_data = \<lparr>doc_tasks = None,
                          doc_preferences = Some \<lparr>pref_darkMode = Some (\<not> darkMode s)\<rparr>,
                          doc_others = []\<rparr>,
                w_merge = True\<rparr>])"
proof -
  let ?Q = "\<lambda>w. w_merge w \<and>
         ((\<exists>ts. w_data w = \<lparr>doc_tasks = Some ts, doc_preferences = None, doc_others = []\<rparr> \<and>
                (\<forall>d. store_write (Some d) w = d\<lparr>doc_tasks := Some ts\<rparr>)) \<or>
          (\<exists>b. w_data w = \<lparr>doc_tasks = None,
                            doc_preferences = Some \<lparr>pref_darkMode = Some b\<rparr>,
                            doc_others = []\<rparr> \<and>
                (\<forall>d. store_write (Some d) w =
                   d\<lparr>doc_preferences := Some \<lparr>pref_darkMode = Some b\<rparr>\<rparr>)))"
  have "\<forall>w\<in>set (writes (run (mounted saved) es)). ?Q w"
  proof (rule run_writes_shape)
    show "?Q \<lparr>w_uid = uid,
        w_data = \<lparr>doc_tasks = Some ts, doc_preferences = None, doc_others = []\<rparr>,
        w_merge = True\<rparr>" for uid ts
      using store_write_tasks_only [of _ uid ts] by simp
    show "?Q \<lparr>w_uid = uid,
        w_data = \<lparr>doc_tasks = None, doc_preferences = Some \<lparr>pref_darkMode = Some b\<rparr>,
                  doc_others = []\<rparr>,
        w_merge = True\<rparr>" for uid b
      using store_write_preferences_only [of _ uid "\<lparr>pref_darkMode = Some b\<rparr>"] by simp
  qed
  with assms have "?Q w" by blast
  then show ?thesis
    using step_task_mutation_writes step_theme_writes by simp
qed

theorem writes_touch_one_field_witness:
  "tasks_write \<in> set (writes (run (mounted None) example_session)) \<and>
   preferences_write \<in> set (writes (run (mounted None) example_session)) \<and>
   w_merge tasks_write \<and> w_merge preferences_write \<and>
   store_write (Some example_document) tasks_write =
     example_document\<lparr>doc_tasks := Some [task_b]\<rparr> \<and>
   store_write (Some (example_document\<lparr>doc_preferences := Some \<lparr>pref_darkMode = Some False\<rparr>\<rparr>))
     preferences_write = example_document \<and>
   userId typing_state = Some ''u1'' \<and> isInitialLoadDone typing_state \<and>
   writes (step typing_state ClickTheme) = [preferences_write]"
proof -
  have t: "tasks_write \<in> set (writes (run (mounted None) example_session))"
    and p: "preferences_write \<in> set (writes (run (mounted None) example_session))"
    by (simp_all add: example_session_writes)
  have d: "w_data tasks_write =
      \<lparr>doc_tasks = Some [task_b], doc_preferences = None, doc_others = []\<rparr>"
    "w_data preferences_write =
      \<lparr>doc_tasks = None, doc_preferences = Some \<lparr>pref_darkMode = Some True\<rparr>,
       doc_others = []\<rparr>"
    by (simp_all add: tasks_write_def preferences_write_def)
  have s: "userId typing_state = Some ''u1''" "isInitialLoadDone typing_state"
    "writes typing_state = []" "\<not> darkMode typing_state"
    by (simp_all add: typing_state_def)
  have e: "example_document\<lparr>doc_preferences := Some \<lparr>pref_darkMode = Some False\<rparr>,
      doc_preferences := Some \<lparr>pref_darkMode = Some True\<rparr>\<rparr> = example_document"
    by (simp add: example_document_def)
  from writes_touch_one_field [OF t] d
  have a: "w_merge tasks_write"
    and b: "store_write (Some example_document) tasks_write =
      example_document\<lparr>doc_tasks := Some [task_b]\<rparr>"
    by auto
  from writes_touch_one_field [OF t]
  have "userId typing_state = Some ''u1'' \<and> ''u1'' \<noteq> [] \<and> isInitialLoadDone typing_state \<longrightarrow>
      writes (step typing_state ClickTheme) = writes typing_state @
        [\<lparr>w_uid = ''u1'',
          w_data = \<lparr>doc_tasks = None,
                    doc_preferences = Some \<lparr>pref_darkMode = Some (\<not> darkMode typing_state)\<rparr>,
                    doc_others = []\<rparr>,
          w_merge = True\<rparr>]"
    by blast
  with s have c: "writes (step typing_state ClickTheme) = [preferences_write]"
    by (simp add: preferences_write_def)
  from writes_touch_one_field [OF p] d
  have a': "w_merge preferences_write"
    and b': "store_write
        (Some (example_document\<lparr>doc_preferences := Some \<lparr>pref_darkMode = Some False\<rparr>\<rparr>))
        preferences_write = example_document"
    using e by auto
  from t p a a' b b' c s show ?thesis by blast
qed

end
